theory Spec2Isabelle
  imports Main "HOL-Library.Word"
begin

section \<open>Data model of \<open>ejs.c\<close>\<close>

text \<open>
  Bytes are \<open>char\<close>. A source text is the list of bytes stored at the pointer handed to
  \<open>ejs_exec\<close>: the C string ends at the first NUL byte, and a list without a NUL byte is
  terminated at its end. Bytes that follow the first NUL in the list stand for the memory
  behind the terminator; a read behind the end of the list yields NUL.
  Pointers into the source (\<open>cursor\<close>, \<open>tok\<close>) are offsets from \<open>source_code\<close>.
\<close>

abbreviation NUL :: char where
  "NUL \<equiv> CHR 0x00"

abbreviation LF :: char where
  "LF \<equiv> CHR 0x0A"

definition byte_at :: "string \<Rightarrow> nat \<Rightarrow> char" where
  "byte_at mem i = (if i < length mem then mem ! i else NUL)"

definition strlen :: "string \<Rightarrow> nat" where
  "strlen mem = length (takeWhile (\<lambda>c. c \<noteq> NUL) mem)"

type_synonym addr = nat

text \<open>\<open>struct ll { struct ll *prev, *next; }\<close>\<close>

record ll =
  ll_prev :: addr
  ll_next :: addr

text \<open>
  \<open>struct ejs\<close>. The \<open>jmp_buf\<close> is not a field of the model: \<open>setjmp\<close>/\<open>longjmp\<close> become
  the \<open>Inl\<close> branch of a sum. \<open>error_msg\<close> is the \<open>char[100]\<close> buffer itself, byte by byte;
  \<open>line_no\<close> is a C \<open>int\<close>, here a word of 32 bits, read by \<open>sint\<close>: the increment at
  \<open>INT_MAX\<close>, undefined in C, is the wrap of the two's-complement machine (the counter is
  never reset, so a long-lived instance can get there);
  \<open>tok_len\<close> is the \<open>int\<close> length of one token, taken as an unbounded integer (a wrap would
  need a single token of \<open>2^31\<close> bytes).
\<close>

record ejs =
  source_code :: string
  cursor :: nat
  line_no :: "32 word"
  tok :: nat
  tok_len :: int
  symbol_table :: ll
  error_msg :: string

definition peek :: "ejs \<Rightarrow> char" where
  \<comment> \<open>\<open>*ejs->cursor\<close>\<close>
  "peek ejs = byte_at (source_code ejs) (cursor ejs)"

definition c_string :: "string \<Rightarrow> string" where
  \<comment> \<open>the C string held in a buffer: the bytes before the first NUL\<close>
  "c_string buf = takeWhile (\<lambda>c. c \<noteq> NUL) buf"

section \<open>Error signalling\<close>

definition vsnprintf :: "string \<Rightarrow> nat \<Rightarrow> string \<Rightarrow> string" where
  \<comment> \<open>writes at most \<open>sz - 1\<close> bytes of the formatted text and a NUL; the rest of the
      buffer keeps its bytes\<close>
  "vsnprintf buf sz text =
     (let out = take (sz - 1) text in out @ [NUL] @ drop (length out + 1) buf)"

definition die :: "ejs \<Rightarrow> string \<Rightarrow> ejs + 'a" where
  \<comment> \<open>\<open>text\<close> is the formatted message; \<open>longjmp\<close> is the \<open>Inl\<close> result\<close>
  "die vm text =
     (let buf = vsnprintf (error_msg vm) 100 text
      in Inl (vm\<lparr>error_msg := buf[99 := NUL]\<rparr>))"

definition ejs_create :: "addr option \<Rightarrow> ejs option" where
  \<comment> \<open>the argument is what \<open>calloc\<close> returned; the list head links to itself\<close>
  "ejs_create p =
     (case p of
        None \<Rightarrow> None
      | Some a \<Rightarrow> Some \<lparr>source_code = [], cursor = 0, line_no = 0, tok = 0, tok_len = 0,
                        symbol_table = \<lparr>ll_prev = a, ll_next = a\<rparr>,
                        error_msg = replicate 100 NUL\<rparr>)"

section \<open>Character classes\<close>

definition tab :: "nat list" where
  "tab =
    [0, 0, 0, 0, 0, 0, 0, 0, 0, 1, 1, 0, 1, 0, 0, 0,
     0, 0, 0, 0, 0, 0, 0, 0, 0, 0, 0, 0, 0, 0, 0, 0,
     1, 1, 1, 1, 1, 1, 1, 1, 1, 1, 1, 1, 1, 1, 1, 1,
     2, 2, 2, 2, 2, 2, 2, 2, 2, 2, 1, 1, 1, 1, 1, 1,
     1, 3, 3, 3, 3, 3, 3, 4, 4, 4, 4, 4, 4, 4, 4, 4,
     4, 4, 4, 4, 4, 4, 4, 4, 4, 4, 4, 1, 1, 1, 1, 1,
     1, 3, 3, 3, 3, 3, 3, 4, 4, 4, 4, 4, 4, 4, 4, 4,
     4, 4, 4, 4, 4, 4, 4, 4, 4, 4, 4, 1, 1, 1, 1, 0,
     0, 0, 0, 0, 0, 0, 0, 0, 0, 0, 0, 0, 0, 0, 0, 0,
     0, 0, 0, 0, 0, 0, 0, 0, 0, 0, 0, 0, 0, 0, 0, 0,
     0, 0, 0, 0, 0, 0, 0, 0, 0, 0, 0, 0, 0, 0, 0, 0,
     0, 0, 0, 0, 0, 0, 0, 0, 0, 0, 0, 0, 0, 0, 0, 0,
     0, 0, 0, 0, 0, 0, 0, 0, 0, 0, 0, 0, 0, 0, 0, 0,
     0, 0, 0, 0, 0, 0, 0, 0, 0, 0, 0, 0, 0, 0, 0, 0,
     0, 0, 0, 0, 0, 0, 0, 0, 0, 0, 0, 0, 0, 0, 0, 0,
     0, 0, 0, 0, 0, 0, 0, 0, 0, 0, 0, 0, 0, 0, 0, 0]"

definition char_class :: "char \<Rightarrow> nat" where
  \<comment> \<open>0 invalid, 1 delimiter, 2 digit, 3 hex digit, 4 letter\<close>
  "char_class c = tab ! of_char c"

definition is_alpha :: "char \<Rightarrow> bool" where
  "is_alpha c = (char_class c > 2)"

definition is_alnum :: "char \<Rightarrow> bool" where
  "is_alnum c = (char_class c > 1)"

definition is_digit :: "char \<Rightarrow> bool" where
  "is_digit c = (char_class c = 2)"

definition is_space :: "char \<Rightarrow> bool" where
  "is_space c = (c = CHR '' '' \<or> c = CHR 0x09 \<or> c = CHR 0x0D \<or> c = LF)"

section \<open>Scanning\<close>

text \<open>
  \<open>EXPECT(ejs, cond)\<close>: the state passed in is the one after \<open>cond\<close> was evaluated, since
  the macro reads \<open>ejs->cursor\<close> for the snippet after it has evaluated the condition;
  \<open>text\<close> is the stringified condition. \<open>%.*s\<close> with precision 10 prints at most 10
  bytes and stops at a NUL.
\<close>

definition EXPECT :: "ejs \<Rightarrow> bool \<Rightarrow> string \<Rightarrow> ejs + ejs" where
  "EXPECT ejs cond text =
     (if \<not> cond
      then die ejs (''['' @ c_string (take 10 (drop (cursor ejs) (source_code ejs)))
                      @ '']: '' @ text)
      else Inr ejs)"

text \<open>The first loop of \<open>skip_whitespaces_and_comments\<close>, on the local \<open>s\<close>.\<close>

function skip_spaces :: "ejs \<Rightarrow> nat \<Rightarrow> ejs \<times> nat" where
  "skip_spaces ejs s =
     (if byte_at (source_code ejs) s \<noteq> NUL \<and> is_space (byte_at (source_code ejs) s)
      then skip_spaces
             (if byte_at (source_code ejs) s = LF then ejs\<lparr>line_no := line_no ejs + 1\<rparr>
              else ejs)
             (s + 1)
      else (ejs, s))"
  by pat_completeness auto
termination
  by (relation "measure (\<lambda>(ejs, s). length (source_code ejs) - s)")
     (auto simp: byte_at_def split: if_splits)

text \<open>The second loop: to the end of the line.\<close>

function skip_line :: "string \<Rightarrow> nat \<Rightarrow> nat" where
  "skip_line src s =
     (if byte_at src s \<noteq> NUL \<and> byte_at src s \<noteq> LF then skip_line src (s + 1) else s)"
  by pat_completeness auto
termination
  by (relation "measure (\<lambda>(src, s). length src - s)")
     (auto simp: byte_at_def split: if_splits)

definition skip_whitespaces_and_comments :: "ejs \<Rightarrow> ejs" where
  "skip_whitespaces_and_comments ejs =
     (let s = cursor ejs in
      if is_space (byte_at (source_code ejs) s) then
        (let (ejs1, s1) = skip_spaces ejs s;
             s2 = (if byte_at (source_code ejs1) s1 = CHR ''/''
                      \<and> byte_at (source_code ejs1) (s1 + 1) = CHR ''/''
                   then skip_line (source_code ejs1) (s1 + 2) else s1)
         in ejs1\<lparr>cursor := s2\<rparr>)
      else ejs\<lparr>cursor := s\<rparr>)"

definition match :: "ejs \<Rightarrow> char \<Rightarrow> ejs + ejs" where
  "match ejs ch =
     (case EXPECT (ejs\<lparr>cursor := cursor ejs + 1\<rparr>) (peek ejs = ch) ''*ejs->cursor++ == ch'' of
        Inl e \<Rightarrow> Inl e
      | Inr ejs1 \<Rightarrow> Inr (skip_whitespaces_and_comments ejs1))"

definition memcmp_eq :: "string \<Rightarrow> nat \<Rightarrow> string \<Rightarrow> nat \<Rightarrow> bool" where
  \<comment> \<open>\<open>memcmp(mem + c, kw, kwlen) == 0\<close>\<close>
  "memcmp_eq mem c kw kwlen = (map (byte_at mem) [c..<c + kwlen] = map (byte_at kw) [0..<kwlen])"

definition test_and_skip :: "ejs \<Rightarrow> string \<Rightarrow> nat \<Rightarrow> bool \<times> ejs" where
  "test_and_skip ejs kw kwlen =
     (if memcmp_eq (source_code ejs) (cursor ejs) kw kwlen
      then (True, skip_whitespaces_and_comments (ejs\<lparr>cursor := cursor ejs + kwlen\<rparr>))
      else (False, ejs))"

text \<open>
  The digit loop of \<open>parse_num\<close>; \<open>result\<close> is a C \<open>int\<close>, here 32 bits with wrap-around.
\<close>

function num_loop :: "ejs \<Rightarrow> 32 word \<Rightarrow> ejs \<times> 32 word" where
  "num_loop ejs result =
     (if is_digit (peek ejs)
      then num_loop (ejs\<lparr>cursor := cursor ejs + 1\<rparr>)
             (result * 10 + (of_char (peek ejs) - of_char (CHR ''0'')))
      else (ejs, result))"
  by pat_completeness auto
termination
  by (relation "measure (\<lambda>(ejs, r). length (source_code ejs) - cursor ejs)")
     (auto simp: peek_def byte_at_def is_digit_def char_class_def tab_def split: if_splits)

definition parse_num :: "ejs \<Rightarrow> ejs + (32 word \<times> ejs)" where
  "parse_num ejs =
     (case EXPECT ejs (is_digit (peek ejs)) ''is_digit(ejs->cursor)'' of
        Inl e \<Rightarrow> Inl e
      | Inr ejs1 \<Rightarrow>
          (let (ejs2, result) = num_loop (ejs1\<lparr>tok := cursor ejs1\<rparr>) 0;
               ejs3 = ejs2\<lparr>tok_len := int (cursor ejs2) - int (tok ejs2)\<rparr>
           in Inr (result, skip_whitespaces_and_comments ejs3)))"

function ident_loop :: "ejs \<Rightarrow> ejs" where
  "ident_loop ejs =
     (if is_alnum (peek ejs) \<or> peek ejs = CHR ''_''
      then ident_loop (ejs\<lparr>cursor := cursor ejs + 1\<rparr>)
      else ejs)"
  by pat_completeness auto
termination
  by (relation "measure (\<lambda>ejs. length (source_code ejs) - cursor ejs)")
     (auto simp: peek_def byte_at_def is_alnum_def char_class_def tab_def split: if_splits)

definition parse_identifier :: "ejs \<Rightarrow> ejs + ejs" where
  "parse_identifier ejs =
     (case EXPECT ejs (is_alpha (peek ejs) \<or> peek ejs = CHR ''_'')
             (''is_alpha(ejs->cursor) || *ejs->cursor == '' @ [CHR 0x27, CHR ''_'', CHR 0x27]) of
        Inl e \<Rightarrow> Inl e
      | Inr ejs1 \<Rightarrow>
          (let ejs2 = ident_loop (ejs1\<lparr>tok := cursor ejs1, cursor := cursor ejs1 + 1\<rparr>);
               ejs3 = ejs2\<lparr>tok_len := int (cursor ejs2) - int (tok ejs2)\<rparr>
           in Inr (skip_whitespaces_and_comments ejs3)))"

declare skip_spaces.simps [simp del] skip_line.simps [simp del]
  num_loop.simps [simp del] ident_loop.simps [simp del]

section \<open>The recursive-descent parser\<close>

text \<open>
  The grammar functions call each other and loop on the scan state. They take a bound
  \<open>n\<close> on the depth of calls and loop iterations that is passed down, decreasing; \<open>None\<close>
  means that the bound was reached. \<open>Some (Inl e)\<close> is the \<open>longjmp\<close> out of \<open>die\<close> with
  the instance in state \<open>e\<close>; \<open>Some (Inr e)\<close> is the ordinary return.
\<close>

definition and_then ::
  "(ejs + 'a) option \<Rightarrow> ('a \<Rightarrow> (ejs + 'b) option) \<Rightarrow> (ejs + 'b) option" where
  "and_then m f = (case m of None \<Rightarrow> None | Some (Inl e) \<Rightarrow> Some (Inl e) | Some (Inr x) \<Rightarrow> f x)"

fun parse_function_call_args :: "nat \<Rightarrow> ejs \<Rightarrow> (ejs + ejs) option"
  and parse_function_call :: "nat \<Rightarrow> ejs \<Rightarrow> (ejs + ejs) option"
  and parse_factor :: "nat \<Rightarrow> ejs \<Rightarrow> (ejs + ejs) option"
  and parse_term_loop :: "nat \<Rightarrow> ejs \<Rightarrow> (ejs + ejs) option"
  and parse_term :: "nat \<Rightarrow> ejs \<Rightarrow> (ejs + ejs) option"
  and parse_expression_loop :: "nat \<Rightarrow> ejs \<Rightarrow> (ejs + ejs) option"
  and parse_expression :: "nat \<Rightarrow> ejs \<Rightarrow> (ejs + ejs) option"
where
  "parse_function_call_args 0 ejs = None"
| "parse_function_call_args (Suc n) ejs =
     (if peek ejs \<noteq> CHR '')''
      then and_then (parse_expression n ejs) (\<lambda>ejs1.
           and_then (if peek ejs1 = CHR '','' then Some (match ejs1 (CHR '','')) else Some (Inr ejs1))
             (\<lambda>ejs2. parse_function_call_args n ejs2))
      else Some (Inr ejs))"
| "parse_function_call 0 ejs = None"
| "parse_function_call (Suc n) ejs =
     and_then (Some (match ejs (CHR ''(''))) (\<lambda>ejs1.
     and_then (parse_function_call_args n ejs1) (\<lambda>ejs2.
     Some (match ejs2 (CHR '')''))))"
| "parse_factor 0 ejs = None"
| "parse_factor (Suc n) ejs =
     (if peek ejs = CHR ''(''
      then and_then (Some (match ejs (CHR ''(''))) (\<lambda>ejs1.
           and_then (parse_expression n ejs1) (\<lambda>ejs2.
           Some (match ejs2 (CHR '')''))))
      else if is_alpha (peek ejs)
      then and_then (Some (parse_identifier ejs)) (\<lambda>ejs1.
           if peek ejs1 = CHR ''('' then parse_function_call n ejs1 else Some (Inr ejs1))
      else and_then (Some (parse_num ejs)) (\<lambda>(result, ejs1). Some (Inr ejs1)))"
| "parse_term_loop 0 ejs = None"
| "parse_term_loop (Suc n) ejs =
     (if peek ejs = CHR ''*'' \<or> peek ejs = CHR ''/''
      then and_then (Some (match ejs (peek ejs))) (\<lambda>ejs1.
           and_then (parse_factor n ejs1) (\<lambda>ejs2.
           parse_term_loop n ejs2))
      else Some (Inr ejs))"
| "parse_term 0 ejs = None"
| "parse_term (Suc n) ejs =
     and_then (parse_factor n ejs) (\<lambda>ejs1. parse_term_loop n ejs1)"
| "parse_expression_loop 0 ejs = None"
| "parse_expression_loop (Suc n) ejs =
     (if peek ejs = CHR ''-'' \<or> peek ejs = CHR ''+''
      then and_then (Some (match ejs (peek ejs))) (\<lambda>ejs1.
           and_then (parse_term n ejs1) (\<lambda>ejs2.
           parse_expression_loop n ejs2))
      else Some (Inr ejs))"
| "parse_expression 0 ejs = None"
| "parse_expression (Suc n) ejs =
     and_then (parse_term n ejs) (\<lambda>ejs1. parse_expression_loop n ejs1)"

text \<open>\<open>parse_declaration\<close> is a \<open>do ... while (test_and_skip(ejs, ",", 1))\<close> loop.\<close>

fun parse_declaration :: "nat \<Rightarrow> ejs \<Rightarrow> (ejs + ejs) option" where
  "parse_declaration 0 ejs = None"
| "parse_declaration (Suc n) ejs =
     and_then (Some (parse_identifier ejs)) (\<lambda>ejs1.
     and_then (Some (match ejs1 (CHR ''=''))) (\<lambda>ejs2.
     and_then (parse_expression n ejs2) (\<lambda>ejs3.
     case test_and_skip ejs3 '','' 1 of
       (True, ejs4) \<Rightarrow> parse_declaration n ejs4
     | (False, ejs4) \<Rightarrow> Some (Inr ejs4))))"

definition parse_assignment :: "nat \<Rightarrow> ejs \<Rightarrow> (ejs + ejs) option" where
  "parse_assignment n ejs =
     and_then (Some (parse_identifier ejs)) (\<lambda>ejs1.
     and_then (Some (match ejs1 (CHR ''=''))) (\<lambda>ejs2.
     parse_expression n ejs2))"

definition parse_statement :: "nat \<Rightarrow> ejs \<Rightarrow> (ejs + ejs) option" where
  "parse_statement n ejs =
     and_then
       (case test_and_skip ejs ''var'' 3 of
          (True, ejs1) \<Rightarrow> parse_declaration n ejs1
        | (False, ejs1) \<Rightarrow>
            if is_alpha (peek ejs1) then parse_assignment n ejs1 else parse_expression n ejs1)
       (\<lambda>ejs2. Some (match ejs2 (CHR '';'')))"

text \<open>The statement loop of \<open>ejs_exec\<close>, inside the \<open>setjmp\<close>.\<close>

fun exec_loop :: "nat \<Rightarrow> ejs \<Rightarrow> (ejs + ejs) option" where
  "exec_loop 0 ejs = None"
| "exec_loop (Suc n) ejs =
     (if peek ejs \<noteq> NUL
      then and_then (parse_statement n ejs) (\<lambda>ejs1. exec_loop n ejs1)
      else Some (Inr ejs))"

text \<open>
  \<open>ejs_exec\<close> returns the C result (\<open>True\<close> for 1, \<open>False\<close> for 0) and the instance as the
  call leaves it.
\<close>

definition ejs_exec :: "nat \<Rightarrow> ejs \<Rightarrow> string \<Rightarrow> (bool \<times> ejs) option" where
  "ejs_exec n ejs src =
     (let ejs1 = skip_whitespaces_and_comments (ejs\<lparr>source_code := src, cursor := 0\<rparr>)
      in case exec_loop n ejs1 of
           None \<Rightarrow> None
         | Some (Inl e) \<Rightarrow> Some (False, e)
         | Some (Inr e) \<Rightarrow> Some (True, e))"

section \<open>Proof vocabulary\<close>

text \<open>\<open>fuel_le a b\<close>: the run \<open>b\<close> with the larger bound agrees with \<open>a\<close> once \<open>a\<close> returned.\<close>

definition fuel_le :: "'a option \<Rightarrow> 'a option \<Rightarrow> bool" where
  "fuel_le a b = (a = None \<or> a = b)"

text \<open>The number of newlines among the bytes at the offsets \<open>a\<close> to \<open>b - 1\<close> of the source.\<close>

definition newlines_between :: "string \<Rightarrow> nat \<Rightarrow> nat \<Rightarrow> nat" where
  "newlines_between src a b = count_list (take (b - a) (drop a src)) LF"

text \<open>
  The three conditions that the source hands to \<open>EXPECT\<close>, as the preprocessor
  stringifies them, and the text that \<open>EXPECT\<close> formats from the source, the cursor
  and a condition.
\<close>

definition expectations :: "string list" where
  "expectations =
     [''*ejs->cursor++ == ch'',
      ''is_digit(ejs->cursor)'',
      ''is_alpha(ejs->cursor) || *ejs->cursor == '' @ [CHR 0x27, CHR ''_'', CHR 0x27]]"

definition diagnostic :: "string \<Rightarrow> nat \<Rightarrow> string \<Rightarrow> string" where
  "diagnostic src c text = ''['' @ c_string (take 10 (drop c src)) @ '']: '' @ text"

text \<open>
  \<open>returns s t\<close> relates the instance before a scanning or grammar function to the
  instance at its ordinary return, \<open>dies s t\<close> to the instance at the \<open>longjmp\<close>:
  the source and the symbol table stay, the cursor does not move back, it stays within
  the string on a return and at most one byte behind the terminator in \<open>die\<close>, and the
  diagnostic buffer is kept on a return and written afresh in \<open>die\<close>. \<open>obeys s r\<close> says
  so of a result \<open>r\<close>.
\<close>

definition returns :: "ejs \<Rightarrow> ejs \<Rightarrow> bool" where
  "returns s t \<longleftrightarrow>
     source_code t = source_code s \<and> symbol_table t = symbol_table s
     \<and> error_msg t = error_msg s
     \<and> cursor s \<le> cursor t
     \<and> (cursor s \<le> strlen (source_code s) \<longrightarrow> cursor t \<le> strlen (source_code s))"

definition dies :: "ejs \<Rightarrow> ejs \<Rightarrow> bool" where
  "dies s t \<longleftrightarrow>
     source_code t = source_code s \<and> symbol_table t = symbol_table s
     \<and> cursor s \<le> cursor t
     \<and> (cursor s \<le> strlen (source_code s) \<longrightarrow> cursor t \<le> Suc (strlen (source_code s)))
     \<and> (\<exists>text \<in> set expectations.
           error_msg t =
             (vsnprintf (error_msg s) 100 (diagnostic (source_code s) (cursor t) text))[99 := NUL])"

definition obeys :: "ejs \<Rightarrow> (ejs + ejs) option \<Rightarrow> bool" where
  "obeys s r = (case r of None \<Rightarrow> True | Some (Inl t) \<Rightarrow> dies s t | Some (Inr t) \<Rightarrow> returns s t)"



definition advances :: "ejs \<Rightarrow> ejs \<Rightarrow> bool" where
  "advances s t \<longleftrightarrow> returns s t \<and> cursor s < cursor t"

text \<open>
  \<open>skip_run s w t\<close>: from the whitespace byte under the cursor of \<open>s\<close> the skipper has
  moved over the run of whitespace that ends before offset \<open>w\<close>, has added the number of
  newlines in the run to the line counter and, where \<open>//\<close> stands at \<open>w\<close>, has moved on
  over the comment to the newline or NUL that ends it, which it leaves; \<open>t\<close> differs from
  \<open>s\<close> in the cursor and the line counter only.
\<close>

definition skip_run :: "ejs \<Rightarrow> nat \<Rightarrow> ejs \<Rightarrow> bool" where
  "skip_run s w t \<longleftrightarrow>
     cursor s < w
     \<and> (\<forall>i. cursor s \<le> i \<and> i < w \<longrightarrow> is_space (byte_at (source_code s) i))
     \<and> \<not> is_space (byte_at (source_code s) w)
     \<and> line_no t = line_no s + of_nat (newlines_between (source_code s) (cursor s) w)
     \<and> (if byte_at (source_code s) w = CHR ''/'' \<and> byte_at (source_code s) (w + 1) = CHR ''/''
         then w + 2 \<le> cursor t
            \<and> (\<forall>i. w + 2 \<le> i \<and> i < cursor t
                   \<longrightarrow> byte_at (source_code s) i \<noteq> NUL \<and> byte_at (source_code s) i \<noteq> LF)
            \<and> (byte_at (source_code s) (cursor t) = NUL \<or> byte_at (source_code s) (cursor t) = LF)
         else cursor t = w)
     \<and> t = s\<lparr>cursor := cursor t, line_no := line_no t\<rparr>"

section \<open>A larger bound does not change a result\<close>

lemma fuel_le_refl: "fuel_le a a"
  by (simp add: fuel_le_def)

lemma fuel_le_None: "fuel_le None b"
  by (simp add: fuel_le_def)

lemma fuel_le_and_then:
  "fuel_le m m' \<Longrightarrow> (\<And>x. fuel_le (f x) (f' x)) \<Longrightarrow> fuel_le (and_then m f) (and_then m' f')"
  by (auto simp: fuel_le_def and_then_def split: option.splits sum.splits)

lemma fuel_le_if:
  "(c \<Longrightarrow> fuel_le a a') \<Longrightarrow> (\<not> c \<Longrightarrow> fuel_le b b')
   \<Longrightarrow> fuel_le (if c then a else b) (if c then a' else b')"
  by simp

lemma fuel_le_case_bool_prod:
  "(\<And>e. fuel_le (f e) (f' e)) \<Longrightarrow> (\<And>e. fuel_le (g e) (g' e))
   \<Longrightarrow> fuel_le (case p of (True, e) \<Rightarrow> f e | (False, e) \<Rightarrow> g e)
               (case p of (True, e) \<Rightarrow> f' e | (False, e) \<Rightarrow> g' e)"
  by (simp split: prod.splits bool.splits)

lemmas fuel_le_intros = fuel_le_refl fuel_le_and_then fuel_le_if fuel_le_case_bool_prod

lemma parse_fuel_le_all:
  "\<forall>ejs. fuel_le (parse_function_call_args n ejs) (parse_function_call_args (n + k) ejs)
       \<and> fuel_le (parse_function_call n ejs) (parse_function_call (n + k) ejs)
       \<and> fuel_le (parse_factor n ejs) (parse_factor (n + k) ejs)
       \<and> fuel_le (parse_term_loop n ejs) (parse_term_loop (n + k) ejs)
       \<and> fuel_le (parse_term n ejs) (parse_term (n + k) ejs)
       \<and> fuel_le (parse_expression_loop n ejs) (parse_expression_loop (n + k) ejs)
       \<and> fuel_le (parse_expression n ejs) (parse_expression (n + k) ejs)"
proof (induction n)
  case 0
  show ?case by (simp add: fuel_le_None)
next
  case (Suc n)
  have IH:
    "\<And>ejs. fuel_le (parse_function_call_args n ejs) (parse_function_call_args (n + k) ejs)"
    "\<And>ejs. fuel_le (parse_function_call n ejs) (parse_function_call (n + k) ejs)"
    "\<And>ejs. fuel_le (parse_factor n ejs) (parse_factor (n + k) ejs)"
    "\<And>ejs. fuel_le (parse_term_loop n ejs) (parse_term_loop (n + k) ejs)"
    "\<And>ejs. fuel_le (parse_term n ejs) (parse_term (n + k) ejs)"
    "\<And>ejs. fuel_le (parse_expression_loop n ejs) (parse_expression_loop (n + k) ejs)"
    "\<And>ejs. fuel_le (parse_expression n ejs) (parse_expression (n + k) ejs)"
    using Suc by blast+
  show ?case
    apply (simp split del: if_split)
    apply (intro allI conjI fuel_le_intros IH)
    done
qed

lemma parse_expression_fuel_le:
  "fuel_le (parse_expression n ejs) (parse_expression (n + k) ejs)"
  using parse_fuel_le_all by blast

lemma parse_declaration_fuel_le:
  "fuel_le (parse_declaration n ejs) (parse_declaration (n + k) ejs)"
proof (induction n arbitrary: ejs)
  case 0
  show ?case by (simp add: fuel_le_None)
next
  case (Suc n)
  show ?case
    apply (simp split del: if_split)
    apply (intro fuel_le_intros Suc parse_expression_fuel_le)
    done
qed

lemma parse_statement_fuel_le:
  "fuel_le (parse_statement n ejs) (parse_statement (n + k) ejs)"
  unfolding parse_statement_def parse_assignment_def
  by (intro fuel_le_intros parse_declaration_fuel_le parse_expression_fuel_le)

lemma exec_loop_fuel_le:
  "fuel_le (exec_loop n ejs) (exec_loop (n + k) ejs)"
proof (induction n arbitrary: ejs)
  case 0
  show ?case by (simp add: fuel_le_None)
next
  case (Suc n)
  show ?case
    apply (simp split del: if_split)
    apply (intro fuel_le_intros Suc parse_statement_fuel_le)
    done
qed

lemma ejs_exec_fuel:
  assumes "ejs_exec n ejs src = Some r"
  shows "ejs_exec (n + k) ejs src = Some r"
proof -
  let ?s = "skip_whitespaces_and_comments (ejs\<lparr>source_code := src, cursor := 0\<rparr>)"
  have "exec_loop n ?s \<noteq> None"
    using assms by (auto simp: ejs_exec_def Let_def split: option.splits)
  then have "exec_loop (n + k) ?s = exec_loop n ?s"
    using exec_loop_fuel_le[of n ?s k] by (auto simp: fuel_le_def)
  then show ?thesis
    using assms by (simp add: ejs_exec_def Let_def)
qed

section \<open>The diagnostic buffer\<close>

lemma die_eq:
  "die vm text = Inl (vm\<lparr>error_msg := (vsnprintf (error_msg vm) 100 text)[99 := NUL]\<rparr>)"
  by (simp add: die_def Let_def)

lemma c_string_append_NUL:
  "NUL \<notin> set out \<Longrightarrow> c_string (out @ NUL # rest) = out"
  by (induction out) (auto simp: c_string_def)

lemma c_string_Nil: "c_string [] = []"
  by (simp add: c_string_def)

lemma c_string_Cons: "c_string (c # cs) = (if c = NUL then [] else c # c_string cs)"
  by (simp add: c_string_def)

lemma list_update_NUL_head: "\<exists>rest. (NUL # cs)[k := NUL] = NUL # rest"
  by (cases k) simp_all

lemma vsnprintf_shape:
  "\<exists>rest. (vsnprintf buf 100 text)[99 := NUL] = take 99 text @ NUL # rest"
proof -
  let ?out = "take 99 text"
  let ?tl = "drop (length ?out + 1) buf"
  have len: "length ?out \<le> 99" by simp
  have "(?out @ NUL # ?tl)[99 := NUL] = ?out @ (NUL # ?tl)[99 - length ?out := NUL]"
    using len by (simp add: list_update_append)
  moreover obtain rest where "(NUL # ?tl)[99 - length ?out := NUL] = NUL # rest"
    using list_update_NUL_head by blast
  ultimately have "(?out @ NUL # ?tl)[99 := NUL] = ?out @ NUL # rest"
    by simp
  then show ?thesis
    unfolding vsnprintf_def Let_def by auto
qed

lemma c_string_vsnprintf:
  "NUL \<notin> set text \<Longrightarrow> c_string ((vsnprintf buf 100 text)[99 := NUL]) = take 99 text"
proof -
  assume nz: "NUL \<notin> set text"
  obtain rest where "(vsnprintf buf 100 text)[99 := NUL] = take 99 text @ NUL # rest"
    using vsnprintf_shape by blast
  moreover have "NUL \<notin> set (take 99 text)"
    using nz by (meson in_set_takeD)
  ultimately show ?thesis
    by (simp add: c_string_append_NUL)
qed

section \<open>Runs on concrete source texts\<close>

lemma fuel_numeral:
  "parse_function_call_args (numeral k) ejs = parse_function_call_args (Suc (pred_numeral k)) ejs"
  "parse_function_call (numeral k) ejs = parse_function_call (Suc (pred_numeral k)) ejs"
  "parse_factor (numeral k) ejs = parse_factor (Suc (pred_numeral k)) ejs"
  "parse_term_loop (numeral k) ejs = parse_term_loop (Suc (pred_numeral k)) ejs"
  "parse_term (numeral k) ejs = parse_term (Suc (pred_numeral k)) ejs"
  "parse_expression_loop (numeral k) ejs = parse_expression_loop (Suc (pred_numeral k)) ejs"
  "parse_expression (numeral k) ejs = parse_expression (Suc (pred_numeral k)) ejs"
  "parse_declaration (numeral k) ejs = parse_declaration (Suc (pred_numeral k)) ejs"
  "exec_loop (numeral k) ejs = exec_loop (Suc (pred_numeral k)) ejs"
  by (simp_all only: numeral_eq_Suc)

lemma fuel_one:
  "parse_function_call_args 1 ejs = parse_function_call_args (Suc 0) ejs"
  "parse_function_call 1 ejs = parse_function_call (Suc 0) ejs"
  "parse_factor 1 ejs = parse_factor (Suc 0) ejs"
  "parse_term_loop 1 ejs = parse_term_loop (Suc 0) ejs"
  "parse_term 1 ejs = parse_term (Suc 0) ejs"
  "parse_expression_loop 1 ejs = parse_expression_loop (Suc 0) ejs"
  "parse_expression 1 ejs = parse_expression (Suc 0) ejs"
  "parse_declaration 1 ejs = parse_declaration (Suc 0) ejs"
  "exec_loop 1 ejs = exec_loop (Suc 0) ejs"
  by simp_all

lemmas fuel_simps =
  fuel_numeral(1)[unfolded parse_function_call_args.simps]
  fuel_numeral(2)[unfolded parse_function_call.simps]
  fuel_numeral(3)[unfolded parse_factor.simps]
  fuel_numeral(4)[unfolded parse_term_loop.simps]
  fuel_numeral(5)[unfolded parse_term.simps]
  fuel_numeral(6)[unfolded parse_expression_loop.simps]
  fuel_numeral(7)[unfolded parse_expression.simps]
  fuel_numeral(8)[unfolded parse_declaration.simps]
  fuel_numeral(9)[unfolded exec_loop.simps]
  fuel_one(1)[unfolded parse_function_call_args.simps]
  fuel_one(2)[unfolded parse_function_call.simps]
  fuel_one(3)[unfolded parse_factor.simps]
  fuel_one(4)[unfolded parse_term_loop.simps]
  fuel_one(5)[unfolded parse_term.simps]
  fuel_one(6)[unfolded parse_expression_loop.simps]
  fuel_one(7)[unfolded parse_expression.simps]
  fuel_one(8)[unfolded parse_declaration.simps]
  fuel_one(9)[unfolded exec_loop.simps]

lemmas ev = ejs_exec_def skip_whitespaces_and_comments_def byte_at_def is_space_def peek_def
  parse_statement_def parse_assignment_def test_and_skip_def memcmp_eq_def and_then_def
  parse_identifier_def parse_num_def match_def EXPECT_def die_eq c_string_vsnprintf
  is_alpha_def is_alnum_def is_digit_def char_class_def tab_def upt_rec
  skip_spaces.simps skip_line.simps num_loop.simps ident_loop.simps
  fuel_simps c_string_Nil c_string_Cons Let_def

section \<open>C strings and the newline count\<close>

text \<open>The class table has an entry for every byte, so \<open>char_class\<close> never reads out of range.\<close>

lemma char_class_in_range: "(of_char c :: nat) < length tab"
proof -
  have "(of_char c :: nat) < 256"
    by (rule nat_of_char_less_256)
  moreover have "length tab = 256"
    by (simp add: tab_def)
  ultimately show ?thesis by simp
qed

lemma strlen_le_length: "strlen src \<le> length src"
  by (simp add: strlen_def length_takeWhile_le)

lemma byte_at_strlen: "byte_at src (strlen src) = NUL"
proof (cases "strlen src < length src")
  case True
  then have "\<not> (src ! strlen src \<noteq> NUL)"
    unfolding strlen_def by (rule nth_length_takeWhile)
  then show ?thesis using True by (simp add: byte_at_def)
next
  case False
  then show ?thesis by (simp add: byte_at_def)
qed

lemma byte_at_nonNUL_length: "byte_at src i \<noteq> NUL \<Longrightarrow> i < length src"
  by (simp add: byte_at_def split: if_splits)

lemma nonNUL_below_strlen:
  "i \<le> strlen src \<Longrightarrow> byte_at src i \<noteq> NUL \<Longrightarrow> Suc i \<le> strlen src"
  using byte_at_strlen[of src] by (cases "i = strlen src") auto

lemma newlines_between_same: "newlines_between src a a = 0"
  by (simp add: newlines_between_def)

lemma newlines_between_step:
  assumes "i < j" "byte_at src i \<noteq> NUL"
  shows "newlines_between src i j
           = (if byte_at src i = LF then 1 else 0) + newlines_between src (Suc i) j"
proof -
  have lt: "i < length src" using assms(2) by (rule byte_at_nonNUL_length)
  then have b: "byte_at src i = src ! i" by (simp add: byte_at_def)
  have d: "drop i src = src ! i # drop (Suc i) src"
    using lt by (rule Cons_nth_drop_Suc[symmetric])
  have j: "j - i = Suc (j - Suc i)" using assms(1) by simp
  show ?thesis
    unfolding newlines_between_def d j b by simp
qed

section \<open>The two loops of the skipper\<close>

lemma is_space_not_NUL: "is_space c \<Longrightarrow> c \<noteq> NUL"
  by (auto simp: is_space_def)

lemma skip_spaces_spec:
  "skip_spaces ejs s = (e, s') \<Longrightarrow>
     e = ejs\<lparr>line_no := line_no ejs + of_nat (newlines_between (source_code ejs) s s')\<rparr>
     \<and> s \<le> s'
     \<and> (s \<le> strlen (source_code ejs) \<longrightarrow> s' \<le> strlen (source_code ejs))
     \<and> \<not> is_space (byte_at (source_code ejs) s')
     \<and> (\<forall>i. s \<le> i \<and> i < s' \<longrightarrow> is_space (byte_at (source_code ejs) i))"
proof (induction ejs s arbitrary: e s' rule: skip_spaces.induct)
  case (1 ejs s)
  let ?src = "source_code ejs"
  show ?case
  proof (cases "byte_at ?src s \<noteq> NUL \<and> is_space (byte_at ?src s)")
    case False
    then have "e = ejs" "s' = s"
      using "1.prems" by (auto simp: skip_spaces.simps[of ejs s])
    then show ?thesis using False is_space_not_NUL by (auto simp: newlines_between_same)
  next
    case True
    let ?ejs1 = "if byte_at ?src s = LF then ejs\<lparr>line_no := line_no ejs + 1\<rparr> else ejs"
    have call: "skip_spaces ?ejs1 (s + 1) = (e, s')"
      using "1.prems" True by (simp add: skip_spaces.simps[of ejs s])
    have src1: "source_code ?ejs1 = ?src" by simp
    note IH = "1.IH"[OF True call, unfolded src1]
    have lt: "s < s'" using IH by simp
    have nl: "newlines_between ?src s s'
                = (if byte_at ?src s = LF then 1 else 0) + newlines_between ?src (Suc s) s'"
      using lt True by (intro newlines_between_step) simp_all
    have "e = ejs\<lparr>line_no := line_no ejs + of_nat (newlines_between ?src s s')\<rparr>"
      using IH nl by (cases "byte_at ?src s = LF") simp_all
    moreover have "s \<le> s'" using IH by simp
    moreover have "s \<le> strlen ?src \<longrightarrow> s' \<le> strlen ?src"
      using IH True nonNUL_below_strlen[of s ?src] by simp
    moreover have "\<forall>i. s \<le> i \<and> i < s' \<longrightarrow> is_space (byte_at ?src i)"
    proof (intro allI impI)
      fix i assume i: "s \<le> i \<and> i < s'"
      show "is_space (byte_at ?src i)"
      proof (cases "i = s")
        case True
        then show ?thesis using \<open>byte_at ?src s \<noteq> NUL \<and> is_space (byte_at ?src s)\<close> by simp
      next
        case False
        then have "s + 1 \<le> i \<and> i < s'" using i by simp
        then show ?thesis using IH by blast
      qed
    qed
    ultimately show ?thesis using IH by simp
  qed
qed

lemma skip_line_spec:
  "s \<le> skip_line src s
   \<and> (s \<le> strlen src \<longrightarrow> skip_line src s \<le> strlen src)
   \<and> (\<forall>i. s \<le> i \<and> i < skip_line src s \<longrightarrow> byte_at src i \<noteq> NUL \<and> byte_at src i \<noteq> LF)
   \<and> (byte_at src (skip_line src s) = NUL \<or> byte_at src (skip_line src s) = LF)"
proof (induction src s rule: skip_line.induct)
  case (1 src s)
  show ?case
  proof (cases "byte_at src s \<noteq> NUL \<and> byte_at src s \<noteq> LF")
    case False
    then show ?thesis by (auto simp: skip_line.simps[of src s])
  next
    case True
    have eq: "skip_line src s = skip_line src (s + 1)"
      using True by (simp add: skip_line.simps[of src s])
    note IH = "1.IH"[OF True]
    have "\<forall>i. s \<le> i \<and> i < skip_line src (s + 1) \<longrightarrow> byte_at src i \<noteq> NUL \<and> byte_at src i \<noteq> LF"
    proof (intro allI impI)
      fix i assume i: "s \<le> i \<and> i < skip_line src (s + 1)"
      show "byte_at src i \<noteq> NUL \<and> byte_at src i \<noteq> LF"
      proof (cases "i = s")
        case True
        then show ?thesis using \<open>byte_at src s \<noteq> NUL \<and> byte_at src s \<noteq> LF\<close> by simp
      next
        case False
        then have "s + 1 \<le> i \<and> i < skip_line src (s + 1)" using i by simp
        then show ?thesis using IH by blast
      qed
    qed
    then show ?thesis
      using IH True nonNUL_below_strlen[of s src] unfolding eq by auto
  qed
qed

section \<open>What the scanning functions change\<close>

text \<open>
  Each of \<open>skip_whitespaces_and_comments\<close>, \<open>match\<close>, \<open>parse_identifier\<close>, \<open>parse_num\<close>
  and \<open>test_and_skip\<close> obeys \<open>returns\<close> on its ordinary return and \<open>dies\<close> in \<open>die\<close>.
  \<open>match\<close> does so for the characters the grammar functions pass to it, none of which is
  NUL or a newline.
\<close>

lemma returns_refl: "returns s s"
  by (simp add: returns_def)

lemma returns_trans: "returns s t \<Longrightarrow> returns t u \<Longrightarrow> returns s u"
  by (auto simp: returns_def)

lemma returns_dies: "returns s t \<Longrightarrow> dies t u \<Longrightarrow> dies s u"
  by (auto simp: returns_def dies_def)

lemma returns_consume:
  assumes "peek s \<noteq> NUL" "peek s \<noteq> LF"
    and "source_code t = source_code s" "symbol_table t = symbol_table s"
    and "error_msg t = error_msg s" "line_no t = line_no s" "cursor t = Suc (cursor s)"
  shows "returns s t"
  using assms nonNUL_below_strlen[of "cursor s" "source_code s"]
  by (simp add: returns_def peek_def)

lemma returns_skip: "returns s (skip_whitespaces_and_comments s)"
proof (cases "is_space (peek s)")
  case False
  then show ?thesis
    by (simp add: skip_whitespaces_and_comments_def peek_def returns_def)
next
  case True
  let ?src = "source_code s"
  obtain e s1 where sp: "skip_spaces s (cursor s) = (e, s1)"
    by (cases "skip_spaces s (cursor s)")
  note spec = skip_spaces_spec[OF sp]
  have e: "e = s\<lparr>line_no := line_no s + of_nat (newlines_between ?src (cursor s) s1)\<rparr>"
    and le1: "cursor s \<le> s1" and wf1: "cursor s \<le> strlen ?src \<longrightarrow> s1 \<le> strlen ?src"
    using spec by simp_all
  have src: "source_code e = ?src" using e by simp
  let ?s2 = "if byte_at ?src s1 = CHR ''/'' \<and> byte_at ?src (s1 + 1) = CHR ''/''
             then skip_line ?src (s1 + 2) else s1"
  have res: "skip_whitespaces_and_comments s = e\<lparr>cursor := ?s2\<rparr>"
    using True sp src by (simp add: skip_whitespaces_and_comments_def peek_def Let_def)
  have le2: "s1 \<le> ?s2"
    using skip_line_spec[of "s1 + 2" ?src] by auto
  have wf2: "s1 \<le> strlen ?src \<longrightarrow> ?s2 \<le> strlen ?src"
  proof (cases "byte_at ?src s1 = CHR ''/'' \<and> byte_at ?src (s1 + 1) = CHR ''/''")
    case False then show ?thesis by auto
  next
    case True
    show ?thesis
    proof
      assume "s1 \<le> strlen ?src"
      then have "Suc s1 \<le> strlen ?src"
        using True nonNUL_below_strlen[of s1 ?src] by simp
      then have "Suc (Suc s1) \<le> strlen ?src"
        using True nonNUL_below_strlen[of "Suc s1" ?src] by simp
      then show "?s2 \<le> strlen ?src"
        using True skip_line_spec[of "s1 + 2" ?src] by simp
    qed
  qed
  show ?thesis
    unfolding res returns_def using e le1 le2 wf1 wf2 by simp
qed

lemma returns_consume_skip:
  assumes "peek s \<noteq> NUL" "peek s \<noteq> LF"
    and "source_code t = source_code s" "symbol_table t = symbol_table s"
    and "error_msg t = error_msg s" "line_no t = line_no s" "cursor t = Suc (cursor s)"
  shows "returns s (skip_whitespaces_and_comments t)"
  using returns_trans[OF returns_consume[OF assms] returns_skip] .

lemma dies_EXPECT:
  assumes "text \<in> set expectations"
    and "source_code s' = source_code s" "symbol_table s' = symbol_table s"
    and "error_msg s' = error_msg s" "line_no s' = line_no s"
    and "cursor s' = cursor s \<or> cursor s' = Suc (cursor s)"
    and "EXPECT s' False text = Inl t"
  shows "dies s t"
proof -
  have t: "t = s'\<lparr>error_msg :=
             (vsnprintf (error_msg s) 100 (diagnostic (source_code s) (cursor s') text))[99 := NUL]\<rparr>"
    using assms by (simp add: EXPECT_def die_eq diagnostic_def)
  show ?thesis
    unfolding dies_def t using assms(1-6) by auto
qed

lemma mem_expectations:
  "''*ejs->cursor++ == ch'' \<in> set expectations"
  "''is_digit(ejs->cursor)'' \<in> set expectations"
  "''is_alpha(ejs->cursor) || *ejs->cursor == '' @ [CHR 0x27, CHR ''_'', CHR 0x27]
     \<in> set expectations"
  by (simp_all add: expectations_def)

lemma obeys_match:
  assumes "ch \<noteq> NUL" "ch \<noteq> LF"
  shows "obeys s (Some (match s ch))"
proof (cases "peek s = ch")
  case True
  then have "match s ch = Inr (skip_whitespaces_and_comments (s\<lparr>cursor := cursor s + 1\<rparr>))"
    by (simp add: match_def EXPECT_def)
  moreover have "returns s (skip_whitespaces_and_comments (s\<lparr>cursor := cursor s + 1\<rparr>))"
    using assms True by (intro returns_consume_skip) simp_all
  ultimately show ?thesis by (simp add: obeys_def)
next
  case False
  then obtain t where t: "EXPECT (s\<lparr>cursor := cursor s + 1\<rparr>) False ''*ejs->cursor++ == ch'' = Inl t"
    and m: "match s ch = Inl t"
    by (simp add: match_def EXPECT_def die_eq)
  have "dies s t"
    by (rule dies_EXPECT[OF mem_expectations(1) _ _ _ _ _ t]) simp_all
  then show ?thesis using m by (simp add: obeys_def)
qed

lemma is_alnum_bytes: "is_alnum c \<Longrightarrow> c \<noteq> NUL \<and> c \<noteq> LF"
  by (auto simp: is_alnum_def char_class_def tab_def)

lemma is_alpha_alnum: "is_alpha c \<Longrightarrow> is_alnum c"
  by (simp add: is_alpha_def is_alnum_def)

lemma is_digit_alnum: "is_digit c \<Longrightarrow> is_alnum c"
  by (simp add: is_digit_def is_alnum_def)

lemma returns_ident_loop: "returns s (ident_loop s)"
proof (induction s rule: ident_loop.induct)
  case (1 ejs)
  show ?case
  proof (cases "is_alnum (peek ejs) \<or> peek ejs = CHR ''_''")
    case False
    then show ?thesis by (simp add: ident_loop.simps[of ejs] returns_refl)
  next
    case True
    have "returns ejs (ejs\<lparr>cursor := cursor ejs + 1\<rparr>)"
      using True is_alnum_bytes[of "peek ejs"] by (intro returns_consume) auto
    then show ?thesis
      using "1.IH"[OF True] True returns_trans by (simp add: ident_loop.simps[of ejs])
  qed
qed

lemma returns_num_loop: "returns s (fst (num_loop s r))"
proof (induction s r rule: num_loop.induct)
  case (1 ejs result)
  show ?case
  proof (cases "is_digit (peek ejs)")
    case False
    then show ?thesis by (simp add: num_loop.simps[of ejs result] returns_refl)
  next
    case True
    have "returns ejs (ejs\<lparr>cursor := cursor ejs + 1\<rparr>)"
      using True is_alnum_bytes[of "peek ejs"] is_digit_alnum
      by (intro returns_consume) auto
    then show ?thesis
      using "1.IH"[OF True] True returns_trans by (simp add: num_loop.simps[of ejs result])
  qed
qed

lemma returns_frame:
  "returns s t \<Longrightarrow> source_code u = source_code t \<Longrightarrow> symbol_table u = symbol_table t
   \<Longrightarrow> error_msg u = error_msg t \<Longrightarrow> line_no u = line_no t \<Longrightarrow> cursor u = cursor t
   \<Longrightarrow> returns s u"
  by (simp add: returns_def)

lemma obeys_parse_identifier: "obeys s (Some (parse_identifier s))"
proof (cases "is_alpha (peek s) \<or> peek s = CHR ''_''")
  case True
  let ?s1 = "s\<lparr>tok := cursor s, cursor := cursor s + 1\<rparr>"
  let ?s2 = "ident_loop ?s1"
  let ?s3 = "?s2\<lparr>tok_len := int (cursor ?s2) - int (tok ?s2)\<rparr>"
  have res: "parse_identifier s = Inr (skip_whitespaces_and_comments ?s3)"
    using True by (simp add: parse_identifier_def EXPECT_def Let_def)
  have "returns s ?s1"
    using True is_alnum_bytes[of "peek s"] is_alpha_alnum by (intro returns_consume) auto
  then have "returns s ?s2" using returns_ident_loop returns_trans by blast
  then have "returns s ?s3" by (rule returns_frame) simp_all
  then have "returns s (skip_whitespaces_and_comments ?s3)"
    using returns_skip returns_trans by blast
  then show ?thesis using res by (simp add: obeys_def)
next
  case False
  then obtain t where
    t: "EXPECT s False (''is_alpha(ejs->cursor) || *ejs->cursor == '' @ [CHR 0x27, CHR ''_'', CHR 0x27]) = Inl t"
    and m: "parse_identifier s = Inl t"
    by (simp add: parse_identifier_def EXPECT_def die_eq)
  have "dies s t"
    by (rule dies_EXPECT[OF mem_expectations(3) _ _ _ _ _ t]) simp_all
  then show ?thesis using m by (simp add: obeys_def)
qed

lemma parse_num_cases:
  "(\<exists>t. parse_num s = Inl t \<and> dies s t) \<or> (\<exists>r t. parse_num s = Inr (r, t) \<and> returns s t)"
proof (cases "is_digit (peek s)")
  case True
  let ?s1 = "s\<lparr>tok := cursor s\<rparr>"
  obtain s2 r where nl: "num_loop ?s1 0 = (s2, r)" by (cases "num_loop ?s1 0")
  let ?s3 = "s2\<lparr>tok_len := int (cursor s2) - int (tok s2)\<rparr>"
  have res: "parse_num s = Inr (r, skip_whitespaces_and_comments ?s3)"
    using True nl by (simp add: parse_num_def EXPECT_def Let_def)
  have "returns s ?s1" by (simp add: returns_def)
  moreover have "returns ?s1 s2" using returns_num_loop[of ?s1 0] nl by simp
  ultimately have "returns s s2" using returns_trans by blast
  then have "returns s ?s3" by (rule returns_frame) simp_all
  then have "returns s (skip_whitespaces_and_comments ?s3)"
    using returns_skip returns_trans by blast
  then show ?thesis using res by simp
next
  case False
  then obtain t where
    t: "EXPECT s False ''is_digit(ejs->cursor)'' = Inl t"
    and m: "parse_num s = Inl t"
    by (simp add: parse_num_def EXPECT_def die_eq)
  have "dies s t"
    by (rule dies_EXPECT[OF mem_expectations(2) _ _ _ _ _ t]) simp_all
  then show ?thesis using m by simp
qed

lemma obeys_parse_num:
  "obeys s (and_then (Some (parse_num s)) (\<lambda>(result, ejs1). Some (Inr ejs1)))"
  using parse_num_cases[of s] by (auto simp: obeys_def and_then_def)

lemma returns_test_and_skip_var: "returns s (snd (test_and_skip s ''var'' 3))"
proof (cases "memcmp_eq (source_code s) (cursor s) ''var'' 3")
  case False
  then show ?thesis by (simp add: test_and_skip_def returns_refl)
next
  case True
  let ?c = "cursor s"
  have b: "byte_at (source_code s) ?c = CHR ''v''" "byte_at (source_code s) (Suc ?c) = CHR ''a''"
    "byte_at (source_code s) (Suc (Suc ?c)) = CHR ''r''"
    using True by (simp_all add: memcmp_eq_def upt_rec[of ?c] upt_rec[of "Suc ?c"]
        upt_rec[of "Suc (Suc ?c)"] upt_rec[of 0] upt_rec[of "Suc 0"] upt_rec[of "Suc (Suc 0)"]
        byte_at_def[of "''var''"] eval_nat_numeral)
  have "returns s (s\<lparr>cursor := Suc ?c\<rparr>)"
    using b by (intro returns_consume) (simp_all add: peek_def)
  moreover have "returns (s\<lparr>cursor := Suc ?c\<rparr>) (s\<lparr>cursor := Suc (Suc ?c)\<rparr>)"
    using b by (intro returns_consume) (simp_all add: peek_def)
  moreover have "returns (s\<lparr>cursor := Suc (Suc ?c)\<rparr>) (s\<lparr>cursor := ?c + 3\<rparr>)"
    using b by (intro returns_consume) (simp_all add: peek_def)
  ultimately have "returns s (s\<lparr>cursor := ?c + 3\<rparr>)"
    using returns_trans by blast
  then have "returns s (skip_whitespaces_and_comments (s\<lparr>cursor := ?c + 3\<rparr>))"
    using returns_skip returns_trans by blast
  then show ?thesis using True by (simp add: test_and_skip_def)
qed

lemma returns_test_and_skip_comma: "returns s (snd (test_and_skip s '','' 1))"
proof (cases "memcmp_eq (source_code s) (cursor s) '','' 1")
  case False
  then show ?thesis by (simp add: test_and_skip_def returns_refl)
next
  case True
  have b: "byte_at (source_code s) (cursor s) = CHR '',''"
    using True by (simp add: memcmp_eq_def byte_at_def[of "'',''"])
  have "returns s (skip_whitespaces_and_comments (s\<lparr>cursor := cursor s + 1\<rparr>))"
    using b by (intro returns_consume_skip) (simp_all add: peek_def)
  then show ?thesis using True by (simp add: test_and_skip_def)
qed

section \<open>Every grammar function obeys the two relations\<close>

lemma obeys_None: "obeys s None"
  by (simp add: obeys_def)

lemma obeys_return: "obeys s (Some (Inr s))"
  by (simp add: obeys_def returns_refl)

lemma obeys_after:
  assumes "returns s t" and "obeys t r"
  shows "obeys s r"
proof (cases r)
  case None
  then show ?thesis by (simp add: obeys_def)
next
  case (Some x)
  show ?thesis
  proof (cases x)
    case (Inl e)
    then have "dies t e" using Some assms(2) by (simp add: obeys_def)
    then have "dies s e" using assms(1) returns_dies by blast
    then show ?thesis using Some Inl by (simp add: obeys_def)
  next
    case (Inr u)
    then have "returns t u" using Some assms(2) by (simp add: obeys_def)
    then have "returns s u" using assms(1) returns_trans by blast
    then show ?thesis using Some Inr by (simp add: obeys_def)
  qed
qed

lemma obeys_and_then:
  assumes "obeys s m" and "\<And>t. returns s t \<Longrightarrow> obeys t (f t)"
  shows "obeys s (and_then m f)"
proof (cases m)
  case None
  then show ?thesis by (simp add: and_then_def obeys_def)
next
  case (Some r)
  show ?thesis
  proof (cases r)
    case (Inl e)
    then show ?thesis using Some assms(1) by (simp add: and_then_def obeys_def)
  next
    case (Inr t)
    then have st: "returns s t" using Some assms(1) by (simp add: obeys_def)
    have "obeys s (f t)"
      by (rule obeys_after[OF st assms(2)[OF st]])
    then show ?thesis using Some Inr by (simp add: and_then_def)
  qed
qed

lemma obeys_if:
  "(c \<Longrightarrow> obeys s a) \<Longrightarrow> (\<not> c \<Longrightarrow> obeys s b) \<Longrightarrow> obeys s (if c then a else b)"
  by simp

lemmas obeys_intros = obeys_return obeys_and_then obeys_if obeys_parse_identifier obeys_parse_num

lemma obeys_parse_all:
  "\<forall>ejs. obeys ejs (parse_function_call_args n ejs)
       \<and> obeys ejs (parse_function_call n ejs)
       \<and> obeys ejs (parse_factor n ejs)
       \<and> obeys ejs (parse_term_loop n ejs)
       \<and> obeys ejs (parse_term n ejs)
       \<and> obeys ejs (parse_expression_loop n ejs)
       \<and> obeys ejs (parse_expression n ejs)"
proof (induction n)
  case 0
  show ?case by (simp add: obeys_None)
next
  case (Suc n)
  have IH:
    "\<And>ejs. obeys ejs (parse_function_call_args n ejs)"
    "\<And>ejs. obeys ejs (parse_function_call n ejs)"
    "\<And>ejs. obeys ejs (parse_factor n ejs)"
    "\<And>ejs. obeys ejs (parse_term_loop n ejs)"
    "\<And>ejs. obeys ejs (parse_term n ejs)"
    "\<And>ejs. obeys ejs (parse_expression_loop n ejs)"
    "\<And>ejs. obeys ejs (parse_expression n ejs)"
    using Suc by blast+
  have m: "\<And>s. obeys s (Some (match s (CHR ''('')))" "\<And>s. obeys s (Some (match s (CHR '')'')))"
    "\<And>s. obeys s (Some (match s (CHR '','')))"
    by (rule obeys_match; simp)+
  have mp: "\<And>s. peek s \<in> {CHR ''*'', CHR ''/'', CHR ''-'', CHR ''+''}
               \<Longrightarrow> obeys s (Some (match s (peek s)))"
    by (rule obeys_match) auto
  show ?case
    apply (simp only: parse_function_call_args.simps parse_function_call.simps
        parse_factor.simps parse_term_loop.simps parse_term.simps
        parse_expression_loop.simps parse_expression.simps)
    apply (intro allI conjI obeys_intros IH m mp)
     apply blast+
    done
qed

lemma obeys_parse_expression: "obeys s (parse_expression n s)"
  using obeys_parse_all by blast

lemma obeys_test_and_skip_comma:
  assumes "\<And>t. returns s t \<Longrightarrow> obeys t (f t)" "\<And>t. returns s t \<Longrightarrow> obeys t (g t)"
  shows "obeys s (case test_and_skip s '','' 1 of (True, e) \<Rightarrow> f e | (False, e) \<Rightarrow> g e)"
proof -
  obtain b t where ts: "test_and_skip s '','' 1 = (b, t)" by (cases "test_and_skip s '','' 1")
  then have st: "returns s t" using returns_test_and_skip_comma[of s] by simp
  have "obeys s (f t)" "obeys s (g t)"
    using assms[OF st] st obeys_after by blast+
  then show ?thesis using ts by (cases b) simp_all
qed

lemma obeys_test_and_skip_var:
  assumes "\<And>t. returns s t \<Longrightarrow> obeys t (f t)" "\<And>t. returns s t \<Longrightarrow> obeys t (g t)"
  shows "obeys s (case test_and_skip s ''var'' 3 of (True, e) \<Rightarrow> f e | (False, e) \<Rightarrow> g e)"
proof -
  obtain b t where ts: "test_and_skip s ''var'' 3 = (b, t)" by (cases "test_and_skip s ''var'' 3")
  then have st: "returns s t" using returns_test_and_skip_var[of s] by simp
  have "obeys s (f t)" "obeys s (g t)"
    using assms[OF st] st obeys_after by blast+
  then show ?thesis using ts by (cases b) simp_all
qed

lemma obeys_parse_declaration: "obeys s (parse_declaration n s)"
proof (induction n arbitrary: s)
  case 0
  show ?case by (simp add: obeys_None)
next
  case (Suc n)
  have m: "\<And>s. obeys s (Some (match s (CHR ''='')))"
    by (rule obeys_match; simp)
  show ?case
    apply (simp only: parse_declaration.simps)
    apply (intro obeys_intros obeys_test_and_skip_comma obeys_parse_expression m Suc)
    done
qed

lemma obeys_parse_statement: "obeys s (parse_statement n s)"
proof -
  have m: "\<And>s. obeys s (Some (match s (CHR ''='')))" "\<And>s. obeys s (Some (match s (CHR '';'')))"
    by (rule obeys_match; simp)+
  show ?thesis
    unfolding parse_statement_def parse_assignment_def
    by (intro obeys_intros obeys_test_and_skip_var obeys_parse_expression
          obeys_parse_declaration m)
qed

lemma obeys_exec_loop: "obeys s (exec_loop n s)"
proof (induction n arbitrary: s)
  case 0
  show ?case by (simp add: obeys_None)
next
  case (Suc n)
  show ?case
    apply (simp only: exec_loop.simps)
    apply (intro obeys_intros obeys_parse_statement Suc)
    done
qed

section \<open>A parsed factor, term or expression consumes a byte\<close>

lemma advances_returns: "advances s t \<Longrightarrow> returns s t"
  by (simp add: advances_def)




lemma and_then_Inr:
  "and_then m f = Some (Inr t) \<Longrightarrow> \<exists>u. m = Some (Inr u) \<and> f u = Some (Inr t)"
  by (auto simp: and_then_def split: option.splits sum.splits)









section \<open>The bound is never reached\<close>

















section \<open>The driver\<close>

lemma exec_loop_Inr_peek: "exec_loop n s = Some (Inr t) \<Longrightarrow> peek t = NUL"
proof (induction n arbitrary: s)
  case 0
  then show ?case by simp
next
  case (Suc n)
  show ?case
  proof (cases "peek s \<noteq> NUL")
    case False
    then show ?thesis using Suc.prems by simp
  next
    case True
    then obtain u where "exec_loop n u = Some (Inr t)"
      using Suc.prems and_then_Inr by fastforce
    then show ?thesis by (rule Suc.IH)
  qed
qed

lemma below_strlen_nonNUL: "i < strlen src \<Longrightarrow> byte_at src i \<noteq> NUL"
proof -
  assume lt: "i < strlen src"
  then have "takeWhile (\<lambda>c. c \<noteq> NUL) src ! i \<in> set (takeWhile (\<lambda>c. c \<noteq> NUL) src)"
    unfolding strlen_def by (rule nth_mem)
  then have "takeWhile (\<lambda>c. c \<noteq> NUL) src ! i \<noteq> NUL"
    using set_takeWhileD by fastforce
  moreover have "takeWhile (\<lambda>c. c \<noteq> NUL) src ! i = src ! i"
    using lt unfolding strlen_def by (rule takeWhile_nth)
  ultimately show ?thesis
    using lt strlen_le_length[of src] by (simp add: byte_at_def)
qed

lemma ejs_exec_True:
  assumes "ejs_exec n ejs src = Some (True, e)"
  shows "returns (ejs\<lparr>source_code := src, cursor := 0\<rparr>) e \<and> peek e = NUL"
proof -
  let ?s0 = "ejs\<lparr>source_code := src, cursor := 0\<rparr>"
  let ?s1 = "skip_whitespaces_and_comments ?s0"
  have run: "exec_loop n ?s1 = Some (Inr e)"
    using assms by (auto simp: ejs_exec_def Let_def split: option.splits sum.splits)
  then have "returns ?s1 e"
    using obeys_exec_loop[of ?s1 n] by (simp add: obeys_def)
  then have "returns ?s0 e"
    using returns_skip[of ?s0] returns_trans by blast
  then show ?thesis using exec_loop_Inr_peek[OF run] by simp
qed

lemma ejs_exec_False:
  assumes "ejs_exec n ejs src = Some (False, e)"
  shows "dies (ejs\<lparr>source_code := src, cursor := 0\<rparr>) e"
proof -
  let ?s0 = "ejs\<lparr>source_code := src, cursor := 0\<rparr>"
  let ?s1 = "skip_whitespaces_and_comments ?s0"
  have run: "exec_loop n ?s1 = Some (Inl e)"
    using assms by (auto simp: ejs_exec_def Let_def split: option.splits sum.splits)
  then have "dies ?s1 e"
    using obeys_exec_loop[of ?s1 n] by (simp add: obeys_def)
  then show ?thesis
    using returns_skip[of ?s0] returns_dies by blast
qed

section \<open>The formatted diagnostic\<close>

lemma diagnostic_no_NUL:
  assumes "text \<in> set expectations"
  shows "NUL \<notin> set (diagnostic src c text)"
proof -
  have "NUL \<notin> set (c_string (take 10 (drop c src)))"
    unfolding c_string_def using set_takeWhileD by fastforce
  moreover have "NUL \<notin> set text"
    using assms by (auto simp: expectations_def)
  ultimately show ?thesis by (simp add: diagnostic_def)
qed

lemma diagnostic_length:
  assumes "text \<in> set expectations"
  shows "length (diagnostic src c text) \<le> 99"
proof -
  have "length (c_string (take 10 (drop c src))) \<le> length (take 10 (drop c src))"
    unfolding c_string_def by (rule length_takeWhile_le)
  then have "length (c_string (take 10 (drop c src))) \<le> 10" by simp
  moreover have "length text \<le> 47"
    using assms by (auto simp: expectations_def)
  ultimately show ?thesis by (simp add: diagnostic_def)
qed

lemma vsnprintf_length:
  "length buf = 100 \<Longrightarrow> length ((vsnprintf buf 100 text)[99 := NUL]) = 100"
  by (simp add: vsnprintf_def Let_def)

lemma vsnprintf_last:
  "length buf = 100 \<Longrightarrow> (vsnprintf buf 100 text)[99 := NUL] ! 99 = NUL"
  using vsnprintf_length[of buf] by simp


section \<open>Invoking the skipper twice\<close>

lemma skip_result:
  "skip_whitespaces_and_comments s =
     (if is_space (peek s)
      then (fst (skip_spaces s (cursor s)))\<lparr>cursor :=
             (let s1 = snd (skip_spaces s (cursor s)) in
              if byte_at (source_code s) s1 = CHR ''/'' \<and> byte_at (source_code s) (s1 + 1) = CHR ''/''
              then skip_line (source_code s) (s1 + 2) else s1)\<rparr>
      else s)"
proof (cases "is_space (peek s)")
  case False
  then show ?thesis by (simp add: skip_whitespaces_and_comments_def peek_def)
next
  case True
  obtain e s1 where sp: "skip_spaces s (cursor s) = (e, s1)"
    by (cases "skip_spaces s (cursor s)")
  have "source_code e = source_code s"
    using skip_spaces_spec[OF sp] by simp
  then show ?thesis
    using True sp by (simp add: skip_whitespaces_and_comments_def peek_def Let_def)
qed

lemma skip_stops:
  "\<not> is_space (peek (skip_whitespaces_and_comments s)) \<or> peek (skip_whitespaces_and_comments s) = LF"
proof (cases "is_space (peek s)")
  case False
  then show ?thesis by (simp add: skip_result)
next
  case True
  let ?src = "source_code s"
  obtain e s1 where sp: "skip_spaces s (cursor s) = (e, s1)"
    by (cases "skip_spaces s (cursor s)")
  note spec = skip_spaces_spec[OF sp]
  have src: "source_code e = ?src" using spec by simp
  have ns: "\<not> is_space (byte_at ?src s1)" using spec by simp
  show ?thesis
  proof (cases "byte_at ?src s1 = CHR ''/'' \<and> byte_at ?src (s1 + 1) = CHR ''/''")
    case False
    then have "peek (skip_whitespaces_and_comments s) = byte_at ?src s1"
      using True sp src by (auto simp add: skip_result peek_def)
    then show ?thesis using ns by simp
  next
    case c: True
    then have "peek (skip_whitespaces_and_comments s) = byte_at ?src (skip_line ?src (s1 + 2))"
      using True sp src by (simp add: skip_result peek_def)
    then show ?thesis
      using skip_line_spec[of "s1 + 2" ?src] by (auto simp: is_space_def)
  qed
qed

lemma skip_moves:
  assumes "is_space (peek s)"
  shows "cursor s < cursor (skip_whitespaces_and_comments s)"
proof -
  let ?src = "source_code s"
  let ?s1 = "if byte_at ?src (cursor s) = LF then s\<lparr>line_no := line_no s + 1\<rparr> else s"
  obtain e s1 where sp: "skip_spaces ?s1 (cursor s + 1) = (e, s1)"
    by (cases "skip_spaces ?s1 (cursor s + 1)")
  have "skip_spaces s (cursor s) = (e, s1)"
    using assms sp is_space_not_NUL by (simp add: skip_spaces.simps[of s "cursor s"] peek_def)
  moreover have "cursor s + 1 \<le> s1"
    using skip_spaces_spec[OF sp] by simp
  moreover have "s1 \<le> (if byte_at ?src s1 = CHR ''/'' \<and> byte_at ?src (s1 + 1) = CHR ''/''
                        then skip_line ?src (s1 + 2) else s1)"
    using skip_line_spec[of "s1 + 2" ?src] by auto
  ultimately show ?thesis
    using assms by (simp add: skip_result Let_def)
qed

lemma skip_only_cursor_line_no:
  "skip_whitespaces_and_comments s
     = s\<lparr>cursor := cursor (skip_whitespaces_and_comments s),
         line_no := line_no (skip_whitespaces_and_comments s)\<rparr>"
proof (cases "is_space (peek s)")
  case False
  then show ?thesis by (simp add: skip_result)
next
  case True
  obtain e s1 where sp: "skip_spaces s (cursor s) = (e, s1)"
    by (cases "skip_spaces s (cursor s)")
  obtain x where e: "e = s\<lparr>line_no := x\<rparr>"
    using skip_spaces_spec[OF sp] by blast
  obtain c where t: "skip_whitespaces_and_comments s = e\<lparr>cursor := c\<rparr>"
    using True sp by (simp add: skip_result Let_def)
  show ?thesis
    unfolding t e by simp
qed

lemma skip_shape:
  assumes "is_space (peek s)"
  shows "\<exists>w. skip_run s w (skip_whitespaces_and_comments s)"
proof -
  let ?src = "source_code s"
  let ?t = "skip_whitespaces_and_comments s"
  obtain e w where sp: "skip_spaces s (cursor s) = (e, w)"
    by (cases "skip_spaces s (cursor s)")
  note spec = skip_spaces_spec[OF sp]
  have e: "e = s\<lparr>line_no := line_no s + of_nat (newlines_between ?src (cursor s) w)\<rparr>"
    using spec by simp
  have lt: "cursor s < w"
  proof -
    let ?s1 = "if byte_at ?src (cursor s) = LF then s\<lparr>line_no := line_no s + 1\<rparr> else s"
    have "skip_spaces ?s1 (cursor s + 1) = (e, w)"
      using assms sp is_space_not_NUL by (simp add: skip_spaces.simps[of s "cursor s"] peek_def)
    then show ?thesis using skip_spaces_spec[of ?s1 "cursor s + 1" e w] by simp
  qed
  let ?c = "if byte_at ?src w = CHR ''/'' \<and> byte_at ?src (w + 1) = CHR ''/''
            then skip_line ?src (w + 2) else w"
  have t: "?t = e\<lparr>cursor := ?c\<rparr>"
    using assms sp by (simp add: skip_result Let_def)
  have ct: "cursor ?t = ?c" unfolding t by simp
  have lt2: "line_no ?t = line_no s + of_nat (newlines_between ?src (cursor s) w)"
    unfolding t using e by simp
  have tail: "if byte_at ?src w = CHR ''/'' \<and> byte_at ?src (w + 1) = CHR ''/''
           then w + 2 \<le> cursor ?t
              \<and> (\<forall>i. w + 2 \<le> i \<and> i < cursor ?t \<longrightarrow> byte_at ?src i \<noteq> NUL \<and> byte_at ?src i \<noteq> LF)
              \<and> (byte_at ?src (cursor ?t) = NUL \<or> byte_at ?src (cursor ?t) = LF)
           else cursor ?t = w"
    unfolding ct using skip_line_spec[of "w + 2" ?src] by simp
  have "skip_run s w ?t"
    unfolding skip_run_def using lt spec lt2 tail skip_only_cursor_line_no[of s] by blast
  then show ?thesis ..
qed

lemma skip_source: "source_code (skip_whitespaces_and_comments s) = source_code s"
  using returns_skip[of s] by (simp add: returns_def)

section \<open>The claims\<close>

text \<open>
  C1. The grammar lets an identifier start with \<open>_\<close>, and \<open>parse_identifier\<close> accepts
  one: \<open>var _a = 1;\<close> parses. The two dispatchers, \<open>parse_statement\<close> and
  \<open>parse_factor\<close>, test \<open>is_alpha\<close> alone, where \<open>_\<close> is a delimiter: on \<open>_a = 1;\<close> the
  statement falls through to \<open>parse_num\<close>, which dies, and \<open>ejs_exec\<close> returns false,
  on every instance and with every bound.
\<close>

theorem C1_leading_underscore_rejected:
  "(\<exists>e. ejs_exec (4 + n) ejs ''_a = 1;'' = Some (False, e)
        \<and> cursor e = 0
        \<and> c_string (error_msg e) = ''[_a = 1;]: is_digit(ejs->cursor)'')
   \<and> (\<exists>e. ejs_exec (6 + n) ejs ''var _a = 1;'' = Some (True, e))
   \<and> \<not> is_alpha (CHR ''_'')"
proof -
  have "\<exists>e. ejs_exec 4 ejs ''_a = 1;'' = Some (False, e)
        \<and> cursor e = 0
        \<and> c_string (error_msg e) = ''[_a = 1;]: is_digit(ejs->cursor)''"
    by (simp add: ev)
  moreover have "\<exists>e. ejs_exec 6 ejs ''var _a = 1;'' = Some (True, e)"
    by (simp add: ev)
  moreover have "\<not> is_alpha (CHR ''_'')"
    by (simp add: is_alpha_def char_class_def tab_def)
  ultimately show ?thesis
    using ejs_exec_fuel by blast
qed

text \<open>
  C2. Whenever \<open>ejs_exec\<close> returns false, the C string in \<open>error_msg\<close> is not empty and
  has at most 99 bytes; it is the text \<open>[snippet]: condition\<close> that \<open>die\<close> formats from the
  source, the cursor and one of the three \<open>EXPECT\<close> conditions, so nothing of the earlier
  buffer content is part of it; and a buffer of 100 bytes stays one of 100 bytes with NUL
  in its last byte. This holds for every content of the memory behind the terminator of
  the source, where the snippet of a match that failed on the terminator is read.
\<close>

theorem C2_error_message_on_failure:
  assumes "ejs_exec n ejs src = Some (False, e)"
  shows "c_string (error_msg e) \<noteq> []
       \<and> length (c_string (error_msg e)) \<le> 99
       \<and> (\<exists>text \<in> set expectations. c_string (error_msg e) = diagnostic src (cursor e) text)
       \<and> (length (error_msg ejs) = 100 \<longrightarrow> length (error_msg e) = 100 \<and> error_msg e ! 99 = NUL)"
proof -
  obtain cond where cond: "cond \<in> set expectations"
    and msg: "error_msg e = (vsnprintf (error_msg ejs) 100 (diagnostic src (cursor e) cond))[99 := NUL]"
    using ejs_exec_False[OF assms] by (auto simp: dies_def)
  let ?d = "diagnostic src (cursor e) cond"
  have "c_string (error_msg e) = take 99 ?d"
    unfolding msg using diagnostic_no_NUL[OF cond] by (rule c_string_vsnprintf)
  then have c: "c_string (error_msg e) = ?d"
    using diagnostic_length[OF cond, of src "cursor e"] by simp
  have "?d \<noteq> []" by (simp add: diagnostic_def)
  then show ?thesis
    using c cond diagnostic_length[OF cond, of src "cursor e"] vsnprintf_length vsnprintf_last
    unfolding msg by auto
qed

text \<open>The fresh instance on \<open>foo(1, 2);\<close>.\<close>

theorem C2_witness:
  "ejs_exec 1 (the (ejs_create (Some 0))) ''foo(1, 2);''
     = Some (False, snd (the (ejs_exec 1 (the (ejs_create (Some 0))) ''foo(1, 2);'')))
   \<and> length (error_msg (the (ejs_create (Some 0)))) = 100
   \<and> c_string (error_msg (snd (the (ejs_exec 1 (the (ejs_create (Some 0))) ''foo(1, 2);''))))
       = ''[1, 2);]: *ejs->cursor++ == ch''
   \<and> length (error_msg (snd (the (ejs_exec 1 (the (ejs_create (Some 0))) ''foo(1, 2);'')))) = 100
   \<and> error_msg (snd (the (ejs_exec 1 (the (ejs_create (Some 0))) ''foo(1, 2);''))) ! 99 = NUL"
proof -
  let ?e0 = "the (ejs_create (Some 0))"
  let ?e1 = "snd (the (ejs_exec 1 ?e0 ''foo(1, 2);''))"
  have h: "ejs_exec 1 ?e0 ''foo(1, 2);'' = Some (False, ?e1)"
    by (simp add: ev)
  have l: "length (error_msg ?e0) = 100"
    by (simp add: ejs_create_def)
  have m: "c_string (error_msg ?e1) = ''[1, 2);]: *ejs->cursor++ == ch''"
    by (simp add: ev)
  show ?thesis
    using C2_error_message_on_failure[OF h] h l m by simp
qed

text \<open>
  C3. On \<open>// just a comment\<close> followed by a newline \<open>ejs_exec\<close> returns false: the skipper
  looks for \<open>//\<close> only after it has skipped whitespace, so the comment at the very start
  stays and is parsed as a statement. A comment that ends in a newline is not transparent
  after whitespace either: \<open>x = 1;\<close> and a newline is accepted, and with \<open>// c\<close> put
  before the newline it is rejected, because the skipper stops on the newline and the
  statement loop then parses it as a statement.
\<close>

theorem C3_comment_not_transparent:
  "(\<exists>e. ejs_exec (4 + n) ejs (''// just a comment'' @ [LF]) = Some (False, e)
        \<and> cursor e = 0
        \<and> c_string (error_msg e) = ''[// just a ]: is_digit(ejs->cursor)'')
   \<and> (\<exists>e. ejs_exec (6 + n) ejs (''x = 1;'' @ [LF]) = Some (True, e))
   \<and> (\<exists>e. ejs_exec (6 + n) ejs (''x = 1; // c'' @ [LF]) = Some (False, e))"
proof -
  have "\<exists>e. ejs_exec 4 ejs (''// just a comment'' @ [LF]) = Some (False, e)
        \<and> cursor e = 0
        \<and> c_string (error_msg e) = ''[// just a ]: is_digit(ejs->cursor)''"
    by (simp add: ev)
  moreover have "\<exists>e. ejs_exec 6 ejs (''x = 1;'' @ [LF]) = Some (True, e)"
    by (simp add: ev)
  moreover have "\<exists>e. ejs_exec 6 ejs (''x = 1; // c'' @ [LF]) = Some (False, e)"
    by (simp add: ev)
  ultimately show ?thesis
    using ejs_exec_fuel by blast
qed

text \<open>
  C4. The claim has every call start the line counter at 1. \<open>ejs_create\<close> leaves the
  counter at 0, and \<open>ejs_exec\<close> assigns \<open>source_code\<close> and \<open>cursor\<close> on entry and not
  \<open>line_no\<close>: on every instance a call on the source \<open>x = 1;\<close>, which has no newline,
  returns true with the counter as it was on entry, which is 0 on a fresh instance; and on
  a fresh instance that has run a call on two newlines, the call on that source ends
  with the counter at 2.
\<close>

theorem C4_line_counter_not_reset:
  "map_option line_no (ejs_create (Some a)) = Some 0
   \<and> (\<exists>e. ejs_exec (5 + n) ejs ''x = 1;'' = Some (True, e) \<and> line_no e = line_no ejs)
   \<and> map_option (line_no \<circ> snd) (ejs_exec 5 (the (ejs_create (Some 0))) ''x = 1;'') = Some 0
   \<and> map_option (line_no \<circ> snd)
        (ejs_exec 5 (snd (the (ejs_exec 1 (the (ejs_create (Some 0))) [LF, LF]))) ''x = 1;'')
       = Some 2"
proof -
  have "map_option line_no (ejs_create (Some a)) = Some 0"
    by (simp add: ejs_create_def)
  moreover have "\<exists>e. ejs_exec 5 ejs ''x = 1;'' = Some (True, e) \<and> line_no e = line_no ejs"
    by (simp add: ev)
  moreover have
    "map_option (line_no \<circ> snd) (ejs_exec 5 (the (ejs_create (Some 0))) ''x = 1;'') = Some 0
     \<and> map_option (line_no \<circ> snd)
          (ejs_exec 5 (snd (the (ejs_exec 1 (the (ejs_create (Some 0))) [LF, LF]))) ''x = 1;'')
         = Some 2"
    by (simp add: ev ejs_create_def)
  ultimately show ?thesis
    using ejs_exec_fuel by blast
qed

text \<open>
  C5. On the source \<open>x\<close>, of length 1, \<open>parse_assignment\<close> reads the identifier and
  \<open>match\<close> tests \<open>*ejs->cursor++ == '='\<close> on the terminating NUL: the increment is part of
  the tested condition, so the failed match leaves the cursor at 2, behind the terminator,
  and \<open>EXPECT\<close> hands that address to \<open>die\<close> as the snippet to print.
\<close>

theorem C5_cursor_behind_terminator:
  "\<exists>e. ejs_exec (1 + n) ejs ''x'' = Some (False, e)
       \<and> cursor e = 2 \<and> strlen (source_code e) = 1"
proof -
  have "\<exists>e. ejs_exec 1 ejs ''x'' = Some (False, e)
       \<and> cursor e = 2 \<and> strlen (source_code e) = 1"
    by (simp add: ev strlen_def)
  then show ?thesis
    using ejs_exec_fuel by blast
qed

text \<open>
  C6. \<open>ejs_exec\<close> on \<open>foo(1, 2);\<close> returns false, on every instance and with every bound:
  the statement dispatch sees the letter, \<open>parse_assignment\<close> reads the identifier
  \<open>foo\<close>, and \<open>match\<close> does not find \<open>=\<close>. The same call inside an expression,
  \<open>x = foo(1, 2);\<close>, is accepted.
\<close>

theorem C6_bare_call_rejected:
  "(\<exists>e. ejs_exec (1 + n) ejs ''foo(1, 2);'' = Some (False, e)
        \<and> cursor e = 4
        \<and> c_string (error_msg e) = ''[1, 2);]: *ejs->cursor++ == ch'')
   \<and> (\<exists>e. ejs_exec (12 + n) ejs ''x = foo(1, 2);'' = Some (True, e))"
proof -
  have "\<exists>e. ejs_exec 1 ejs ''foo(1, 2);'' = Some (False, e)
        \<and> cursor e = 4
        \<and> c_string (error_msg e) = ''[1, 2);]: *ejs->cursor++ == ch''"
    by (simp add: ev)
  moreover have "\<exists>e. ejs_exec 12 ejs ''x = foo(1, 2);'' = Some (True, e)"
    by (simp add: ev)
  ultimately show ?thesis
    using ejs_exec_fuel by blast
qed

text \<open>
  C7 says that a second invocation of the skipper is always a no-op. On a blank, the
  comment \<open>//c\<close> and a newline, the first invocation stops on the newline at offset 4; the
  second invocation consumes it and counts a line.
\<close>

theorem C7_counterexample:
  "cursor (skip_whitespaces_and_comments
     (the (ejs_create (Some 0))\<lparr>source_code := '' //c'' @ [LF]\<rparr>)) = 4
   \<and> cursor (skip_whitespaces_and_comments (skip_whitespaces_and_comments
     (the (ejs_create (Some 0))\<lparr>source_code := '' //c'' @ [LF]\<rparr>))) = 5
   \<and> line_no (skip_whitespaces_and_comments
     (the (ejs_create (Some 0))\<lparr>source_code := '' //c'' @ [LF]\<rparr>)) = 0
   \<and> line_no (skip_whitespaces_and_comments (skip_whitespaces_and_comments
     (the (ejs_create (Some 0))\<lparr>source_code := '' //c'' @ [LF]\<rparr>))) = 1"
  by (simp add: ev ejs_create_def)

text \<open>
  C7, amended. For every scan state: on a byte that is not whitespace the skipper changes
  nothing; on a whitespace byte it moves the cursor over the whole run of whitespace,
  adds the number of newlines in the run to the line counter and, if \<open>//\<close> follows the
  run, moves on over the comment up to the newline or NUL that ends it, which it does
  not consume; it changes nothing but the cursor and the line counter. So a second
  invocation right after the first is a no-op exactly when the first does not leave the
  cursor on a newline. The first leaves it on a newline exactly when it started on
  whitespace and the run is followed by a \<open>//\<close> comment that a newline ends. There the
  second invocation skips in the same way from that newline on: it consumes the newline
  with the whitespace behind it, adds the number of newlines in that run, at least one,
  to the line counter, and skips a comment that follows.
\<close>

theorem C7_second_skip:
  "(\<not> is_space (peek s) \<longrightarrow> skip_whitespaces_and_comments s = s)
   \<and> (is_space (peek s) \<longrightarrow> (\<exists>w. skip_run s w (skip_whitespaces_and_comments s)))
   \<and> (skip_whitespaces_and_comments (skip_whitespaces_and_comments s)
         = skip_whitespaces_and_comments s
       \<longleftrightarrow> peek (skip_whitespaces_and_comments s) \<noteq> LF)
   \<and> (peek (skip_whitespaces_and_comments s) = LF \<longleftrightarrow>
        is_space (peek s)
        \<and> (\<exists>w. skip_run s w (skip_whitespaces_and_comments s)
               \<and> byte_at (source_code s) w = CHR ''/''
               \<and> byte_at (source_code s) (w + 1) = CHR ''/''
               \<and> byte_at (source_code s) (cursor (skip_whitespaces_and_comments s)) = LF))
   \<and> (peek (skip_whitespaces_and_comments s) = LF \<longrightarrow>
        (\<exists>w. skip_run (skip_whitespaces_and_comments s) w
                (skip_whitespaces_and_comments (skip_whitespaces_and_comments s))
            \<and> 1 \<le> newlines_between (source_code s) (cursor (skip_whitespaces_and_comments s)) w))"
proof (intro conjI)
  let ?t = "skip_whitespaces_and_comments s"
  let ?u = "skip_whitespaces_and_comments ?t"
  show "\<not> is_space (peek s) \<longrightarrow> ?t = s"
    by (simp add: skip_result)
  show "is_space (peek s) \<longrightarrow> (\<exists>w. skip_run s w ?t)"
    using skip_shape by blast
  show "?u = ?t \<longleftrightarrow> peek ?t \<noteq> LF"
  proof
    assume eq: "?u = ?t"
    show "peek ?t \<noteq> LF"
    proof
      assume "peek ?t = LF"
      then have "is_space (peek ?t)" by (simp add: is_space_def)
      then have "cursor ?t < cursor ?u" by (rule skip_moves)
      then show False using eq by simp
    qed
  next
    assume "peek ?t \<noteq> LF"
    then have "\<not> is_space (peek ?t)" using skip_stops[of s] by blast
    then show "?u = ?t" by (simp add: skip_result)
  qed
  show "peek ?t = LF \<longleftrightarrow>
        is_space (peek s)
        \<and> (\<exists>w. skip_run s w ?t
               \<and> byte_at (source_code s) w = CHR ''/''
               \<and> byte_at (source_code s) (w + 1) = CHR ''/''
               \<and> byte_at (source_code s) (cursor ?t) = LF)"
  proof
    assume lf: "peek ?t = LF"
    have sp: "is_space (peek s)"
    proof (rule ccontr)
      assume n: "\<not> is_space (peek s)"
      then have "?t = s" by (simp add: skip_result)
      then show False using lf n by (simp add: is_space_def)
    qed
    obtain w where w: "skip_run s w ?t"
      using skip_shape[OF sp] by blast
    have at: "byte_at (source_code s) (cursor ?t) = LF"
      using lf skip_source[of s] by (simp add: peek_def)
    have "byte_at (source_code s) w = CHR ''/'' \<and> byte_at (source_code s) (w + 1) = CHR ''/''"
    proof (rule ccontr)
      assume "\<not> (byte_at (source_code s) w = CHR ''/'' \<and> byte_at (source_code s) (w + 1) = CHR ''/'')"
      then have "cursor ?t = w" using w by (simp add: skip_run_def)
      then show False using at w by (simp add: skip_run_def is_space_def)
    qed
    then show "is_space (peek s)
        \<and> (\<exists>w. skip_run s w ?t
               \<and> byte_at (source_code s) w = CHR ''/''
               \<and> byte_at (source_code s) (w + 1) = CHR ''/''
               \<and> byte_at (source_code s) (cursor ?t) = LF)"
      using sp w at by blast
  next
    assume "is_space (peek s)
        \<and> (\<exists>w. skip_run s w ?t
               \<and> byte_at (source_code s) w = CHR ''/''
               \<and> byte_at (source_code s) (w + 1) = CHR ''/''
               \<and> byte_at (source_code s) (cursor ?t) = LF)"
    then show "peek ?t = LF"
      using skip_source[of s] by (auto simp: peek_def)
  qed
  show "peek ?t = LF \<longrightarrow>
        (\<exists>w. skip_run ?t w ?u \<and> 1 \<le> newlines_between (source_code s) (cursor ?t) w)"
  proof
    assume lf: "peek ?t = LF"
    then have sp: "is_space (peek ?t)" by (simp add: is_space_def)
    obtain w where w: "skip_run ?t w ?u"
      using skip_shape[OF sp] by blast
    have lt: "cursor ?t < w" using w by (simp add: skip_run_def)
    have at: "byte_at (source_code s) (cursor ?t) = LF"
      using lf skip_source[of s] by (simp add: peek_def)
    have "newlines_between (source_code s) (cursor ?t) w
            = (if byte_at (source_code s) (cursor ?t) = LF then 1 else 0)
              + newlines_between (source_code s) (Suc (cursor ?t)) w"
      using lt at by (intro newlines_between_step) simp_all
    then have "1 \<le> newlines_between (source_code s) (cursor ?t) w"
      using at by simp
    then show "\<exists>w. skip_run ?t w ?u \<and> 1 \<le> newlines_between (source_code s) (cursor ?t) w"
      using w by blast
  qed
qed

text \<open>A blank, the comment \<open>//c\<close>, a newline, a blank and \<open>x\<close>; and the source \<open>x\<close>.\<close>

theorem C7_witness:
  "is_space (peek (the (ejs_create (Some 0))\<lparr>source_code := '' //c'' @ [LF] @ '' x''\<rparr>))
   \<and> peek (skip_whitespaces_and_comments
        (the (ejs_create (Some 0))\<lparr>source_code := '' //c'' @ [LF] @ '' x''\<rparr>)) = LF
   \<and> skip_whitespaces_and_comments (skip_whitespaces_and_comments
        (the (ejs_create (Some 0))\<lparr>source_code := '' //c'' @ [LF] @ '' x''\<rparr>))
      \<noteq> skip_whitespaces_and_comments
        (the (ejs_create (Some 0))\<lparr>source_code := '' //c'' @ [LF] @ '' x''\<rparr>)
   \<and> (\<exists>w. skip_run
          (skip_whitespaces_and_comments
             (the (ejs_create (Some 0))\<lparr>source_code := '' //c'' @ [LF] @ '' x''\<rparr>)) w
          (skip_whitespaces_and_comments (skip_whitespaces_and_comments
             (the (ejs_create (Some 0))\<lparr>source_code := '' //c'' @ [LF] @ '' x''\<rparr>))))
   \<and> \<not> is_space (peek (the (ejs_create (Some 0))\<lparr>source_code := ''x''\<rparr>))
   \<and> skip_whitespaces_and_comments (the (ejs_create (Some 0))\<lparr>source_code := ''x''\<rparr>)
      = the (ejs_create (Some 0))\<lparr>source_code := ''x''\<rparr>"
proof -
  let ?s = "the (ejs_create (Some 0))\<lparr>source_code := '' //c'' @ [LF] @ '' x''\<rparr>"
  let ?r = "the (ejs_create (Some 0))\<lparr>source_code := ''x''\<rparr>"
  have h1: "is_space (peek ?s)"
    by (simp add: ev ejs_create_def)
  have h2: "peek (skip_whitespaces_and_comments ?s) = LF"
    by (simp add: ev ejs_create_def)
  have h3: "\<not> is_space (peek ?r)"
    by (simp add: ev ejs_create_def)
  show ?thesis
    using C7_second_skip[of ?s] C7_second_skip[of ?r] h1 h2 h3 by blast
qed




text \<open>
  C9. Whatever \<open>ejs_exec\<close> returns, for every source and every instance, the
  \<open>symbol_table\<close> field after the call is the one before it.
\<close>

theorem C9_symbol_table_untouched:
  assumes "ejs_exec n ejs src = Some (ok, e)"
  shows "symbol_table e = symbol_table ejs"
proof (cases ok)
  case True
  then show ?thesis using ejs_exec_True[of n ejs src e] assms by (simp add: returns_def)
next
  case False
  then show ?thesis using ejs_exec_False[of n ejs src e] assms by (simp add: dies_def)
qed

text \<open>A fresh instance whose list head is at address 7.\<close>

theorem C9_witness:
  "ejs_exec 12 (the (ejs_create (Some 7))) ''x = foo(1, 2);''
     = Some (True, snd (the (ejs_exec 12 (the (ejs_create (Some 7))) ''x = foo(1, 2);'')))
   \<and> symbol_table (snd (the (ejs_exec 12 (the (ejs_create (Some 7))) ''x = foo(1, 2);'')))
       = \<lparr>ll_prev = 7, ll_next = 7\<rparr>"
proof -
  let ?e0 = "the (ejs_create (Some 7))"
  let ?e1 = "snd (the (ejs_exec 12 ?e0 ''x = foo(1, 2);''))"
  have h: "ejs_exec 12 ?e0 ''x = foo(1, 2);'' = Some (True, ?e1)"
    by (simp add: ev)
  show ?thesis
    using C9_symbol_table_untouched[OF h] h by (simp add: ejs_create_def)
qed

text \<open>
  C10. A call of \<open>ejs_exec\<close> that returns true leaves the \<open>error_msg\<close> buffer byte for
  byte as it found it: only \<open>die\<close> writes it. So the diagnostic of a failed call is still
  there after a later successful call on the same instance.
\<close>

theorem C10_success_keeps_error_msg:
  assumes "ejs_exec n ejs src = Some (True, e)"
  shows "error_msg e = error_msg ejs"
  using ejs_exec_True[OF assms] by (simp add: returns_def)

text \<open>A failed call on \<open>x\<close>, then a successful call on \<open>x = 1;\<close>, on one instance.\<close>

theorem C10_witness:
  "ejs_exec 5 (snd (the (ejs_exec 1 (the (ejs_create (Some 0))) ''x''))) ''x = 1;''
     = Some (True, snd (the (ejs_exec 5 (snd (the (ejs_exec 1 (the (ejs_create (Some 0))) ''x'')))
                                  ''x = 1;'')))
   \<and> error_msg (snd (the (ejs_exec 5 (snd (the (ejs_exec 1 (the (ejs_create (Some 0))) ''x'')))
                             ''x = 1;'')))
       = error_msg (snd (the (ejs_exec 1 (the (ejs_create (Some 0))) ''x'')))
   \<and> c_string (error_msg (snd (the (ejs_exec 1 (the (ejs_create (Some 0))) ''x''))))
       = ''[]: *ejs->cursor++ == ch''"
proof -
  let ?e1 = "snd (the (ejs_exec 1 (the (ejs_create (Some 0))) ''x''))"
  let ?e2 = "snd (the (ejs_exec 5 ?e1 ''x = 1;''))"
  have h: "ejs_exec 5 ?e1 ''x = 1;'' = Some (True, ?e2)"
    by (simp add: ev)
  have m: "c_string (error_msg ?e1) = ''[]: *ejs->cursor++ == ch''"
    by (simp add: ev)
  show ?thesis
    using C10_success_keeps_error_msg[OF h] h m by simp
qed

end
